theory Spec2Isabelle
  imports Complex_Main "HOL-Library.Sublist"
begin

section \<open>Values and errors\<close>

text \<open>
  The argument of \<^verbatim>\<open>regexToEnglish\<close> is an arbitrary JavaScript value. Only three things
  about it are inspected by the code: its truthiness (\<^verbatim>\<open>!regexPattern\<close>), whether it is a
  \<^verbatim>\<open>RegExp\<close> object (then its \<^verbatim>\<open>source\<close> is read) and whether it is a primitive string.
  Strings are lists of characters; a \<^typ>\<open>char\<close> stands for one code unit below 256.
  A \<^verbatim>\<open>RegExp\<close> carries its source text and its flag letters.
\<close>

datatype js_value =
    JUndefined
  | JNull
  | JBool bool
  | JNaN
  | JNumber real
  | JBigInt int
  | JString string
  | JRegExp string string
  | JObject

datatype js_error = Error string

text \<open>JavaScript's ToBoolean, which decides \<^verbatim>\<open>if (!regexPattern)\<close>.\<close>

fun truthy :: "js_value \<Rightarrow> bool" where
  "truthy JUndefined = False"
| "truthy JNull = False"
| "truthy (JBool b) = b"
| "truthy JNaN = False"
| "truthy (JNumber x) = (x \<noteq> 0)"
| "truthy (JBigInt n) = (n \<noteq> 0)"
| "truthy (JString s) = (s \<noteq> [])"
| "truthy (JRegExp src flags) = True"
| "truthy JObject = True"

fun is_string :: "js_value \<Rightarrow> bool" where
  "is_string (JString s) = True"
| "is_string v = False"

fun is_regexp :: "js_value \<Rightarrow> bool" where
  "is_regexp (JRegExp src flags) = True"
| "is_regexp v = False"

section \<open>String primitives\<close>

abbreviation backslash :: char where
  "backslash \<equiv> CHR 0x5C"

text \<open>\<^verbatim>\<open>pattern[i]\<close>: the character at an index, \<^verbatim>\<open>undefined\<close> (here \<open>None\<close>) out of range.\<close>

definition char_at :: "string \<Rightarrow> nat \<Rightarrow> char option" where
  "char_at p i = (if i < length p then Some (p ! i) else None)"

text \<open>\<^verbatim>\<open>pattern.indexOf(c, i)\<close>: the first index at or after \<open>i\<close> holding \<open>c\<close>; \<open>None\<close> is -1.\<close>

definition index_of :: "char \<Rightarrow> string \<Rightarrow> nat \<Rightarrow> nat option" where
  "index_of c p i = find (\<lambda>k. p ! k = c) [i..<length p]"

text \<open>\<^verbatim>\<open>pattern.substring(a, b)\<close> for \<open>a \<le> b \<le> length\<close>.\<close>

definition substring :: "string \<Rightarrow> nat \<Rightarrow> nat \<Rightarrow> string" where
  "substring p a b = take (b - a) (drop a p)"

text \<open>\<^verbatim>\<open>s.split(sep)\<close> for a separator of one character.\<close>

fun split_on :: "char \<Rightarrow> string \<Rightarrow> string list" where
  "split_on sep [] = [[]]"
| "split_on sep (c # cs) =
     (if c = sep then [] # split_on sep cs
      else (case split_on sep cs of
              w # ws \<Rightarrow> (c # w) # ws
            | [] \<Rightarrow> [[c]]))"

text \<open>The white space \<^verbatim>\<open>trim\<close> removes, among the code units below 256.\<close>

definition is_js_space :: "char \<Rightarrow> bool" where
  "is_js_space c =
     (c \<in> set [CHR 0x09, CHR 0x0A, CHR 0x0B, CHR 0x0C, CHR 0x0D, CHR 0x20, CHR 0xA0])"

definition trim :: "string \<Rightarrow> string" where
  "trim s = rev (dropWhile is_js_space (rev (dropWhile is_js_space s)))"

section \<open>The normalizer\<close>

definition is_flag :: "char \<Rightarrow> bool" where
  "is_flag c = (c \<in> set ''gimuy'')"

text \<open>
  \<^verbatim>\<open>pattern.replace(/^\/|\/[gimuy]*$/g, '')\<close>, scanned from the left as the global replace
  does. The flag is true at index 0 only, where the first alternative \<^verbatim>\<open>^\/\<close> can match
  and is tried first. The second alternative matches at a slash whose remaining text
  consists of flag letters up to the end; that match runs to the end of the string.
\<close>

fun strip_slashes :: "bool \<Rightarrow> string \<Rightarrow> string" where
  "strip_slashes at_start [] = []"
| "strip_slashes at_start (c # cs) =
     (if c = CHR ''/'' \<and> at_start then strip_slashes False cs
      else if c = CHR ''/'' \<and> list_all is_flag cs then []
      else c # strip_slashes False cs)"

section \<open>The special-case table\<close>

definition email_text :: string where
  "email_text =
     [backslash] @ ''b[A-Za-z0-9._%-+]+@[A-Za-z0-9.-]+'' @ [backslash] @ ''.[A-Z|a-z]{2,}''
     @ [backslash] @ ''b''"

definition ssn_text :: string where
  "ssn_text = [backslash] @ ''d{3}-'' @ [backslash] @ ''d{2}-'' @ [backslash] @ ''d{4}''"

definition zip_short_text :: string where
  "zip_short_text = [backslash] @ ''d{5}$''"

definition zip_long_text :: string where
  "zip_long_text = [backslash] @ ''d{5}-'' @ [backslash] @ ''d{4}$''"

definition card_text :: string where
  "card_text =
     [backslash] @ ''d{4}['' @ [backslash] @ ''s-]?'' @
     [backslash] @ ''d{4}['' @ [backslash] @ ''s-]?'' @
     [backslash] @ ''d{4}['' @ [backslash] @ ''s-]?'' @
     [backslash] @ ''d{4}''"

text \<open>
  Each entry pairs what \<^verbatim>\<open>regexCheck.test(pattern)\<close> decides with its curated text. The
  first four recognizers are anchored at both ends and built from escaped literals only,
  so they accept one text each (the third, with its optional group, two); the last is
  anchored at the start only.
\<close>

definition explanations :: "((string \<Rightarrow> bool) \<times> string) list" where
  "explanations =
     [ (\<lambda>p. p = email_text, ''Email address pattern''),
       (\<lambda>p. p = ssn_text, ''3 digits - 2 digits - 4 digits (SSN-like pattern)''),
       (\<lambda>p. p = zip_short_text \<or> p = zip_long_text,
          ''5 digits optionally followed by dash and 4 more digits (ZIP code)''),
       (\<lambda>p. p = card_text,
          ''Credit card number (4 groups of 4 digits with optional separators)''),
       (\<lambda>p. prefix ''https?:'' p, ''URL starting with http or https'') ]"

definition special_case :: "string \<Rightarrow> string option" where
  "special_case p = map_option snd (find (\<lambda>(regexCheck, explanation). regexCheck p) explanations)"

section \<open>Helpers of the narrator\<close>

definition interpretCharacterClass :: "string \<Rightarrow> string" where
  "interpretCharacterClass charClass =
     (if charClass = ''a-z'' then ''lowercase letters''
      else if charClass = ''A-Z'' then ''uppercase letters''
      else if charClass = ''0-9'' then ''digits''
      else if charClass = ''a-zA-Z'' then ''letters''
      else if charClass = ''a-zA-Z0-9'' then ''letters and digits''
      else if charClass = ''A-Za-z0-9'' then ''letters and digits''
      else if CHR ''-'' \<in> set charClass then
        (let parts = split_on CHR ''-'' charClass
         in hd parts @ '' through '' @ last parts)
      else charClass)"

text \<open>
  The loop of \<^verbatim>\<open>findMatchingParen\<close>, entered with \<open>i = start + 1\<close> and \<open>count = 1\<close>. After a
  backslash the body's \<^verbatim>\<open>i++\<close> and the loop's own \<^verbatim>\<open>i++\<close> move the index by two.
\<close>

function findMatchingParen_loop :: "string \<Rightarrow> nat \<Rightarrow> int \<Rightarrow> nat option" where
  "findMatchingParen_loop p i count =
     (if i < length p then
        (if p ! i = backslash then findMatchingParen_loop p (i + 2) count
         else
           (let count1 = (if p ! i = CHR ''('' then count + 1 else count);
                count2 = (if p ! i = CHR '')'' then count1 - 1 else count1)
            in if count2 = 0 then Some i else findMatchingParen_loop p (i + 1) count2))
      else None)"
  by pat_completeness auto
termination
  by (relation "measure (\<lambda>(p, i, count). length p - i)") auto

definition findMatchingParen :: "string \<Rightarrow> nat \<Rightarrow> nat option" where
  "findMatchingParen p start = findMatchingParen_loop p (start + 1) 1"

text \<open>The inner \<^verbatim>\<open>switch (nextChar)\<close> of the backslash branch.\<close>

fun escape_phrase :: "char option \<Rightarrow> string" where
  "escape_phrase None = ''literal undefined''"
| "escape_phrase (Some nextChar) =
     (if nextChar = CHR ''d'' then ''digit''
      else if nextChar = CHR ''w'' then ''word character (letter, digit, or underscore)''
      else if nextChar = CHR ''s'' then ''whitespace character''
      else if nextChar = CHR ''b'' then ''word boundary''
      else if nextChar = CHR ''D'' then ''non-digit''
      else if nextChar = CHR ''W'' then ''non-word character''
      else if nextChar = CHR ''S'' then ''non-whitespace character''
      else if nextChar = CHR ''n'' then ''newline''
      else if nextChar = CHR ''t'' then ''tab''
      else ''literal '' @ [nextChar])"

text \<open>
  The text a brace body contributes. \<^verbatim>\<open>const [min, max] = quantifier.split(',')\<close> reads the
  first two parts; a missing second part would be \<^verbatim>\<open>undefined\<close>.
\<close>

definition brace_phrase :: "string \<Rightarrow> string" where
  "brace_phrase quantifier =
     (if CHR '','' \<in> set quantifier then
        (case split_on CHR '','' quantifier of
           mn # mx # rest \<Rightarrow>
             (if mx = [] then '' ('' @ mn @ '' or more times)''
              else '' ('' @ mn @ '' to '' @ mx @ '' times)'')
         | [mn] \<Rightarrow> '' ('' @ mn @ '' to undefined times)''
         | [] \<Rightarrow> '' (undefined to undefined times)'')
      else '' (exactly '' @ quantifier @ '' times)'')"

section \<open>The tokenizing narrator\<close>

text \<open>
  The \<^verbatim>\<open>switch (char)\<close> at cursor \<open>i\<close> (with \<open>i < length p\<close>): the cursor as the branch
  leaves it, before the loop's \<^verbatim>\<open>i++\<close>, and the explanation with the fragment appended. The
  default branch tests \<^verbatim>\<open>char.match(/[a-zA-Z0-9]/)\<close> and appends the same text either way.
\<close>

definition switch_char :: "string \<Rightarrow> nat \<Rightarrow> string \<Rightarrow> nat \<times> string" where
  "switch_char p i explanation =
     (let char = p ! i in
      if char = CHR ''^'' then (i, explanation @ ''Start of string/line, then '')
      else if char = CHR ''$'' then (i, explanation @ ''end of string/line'')
      else if char = CHR ''.'' then (i, explanation @ ''any character'')
      else if char = CHR ''*'' then (i, explanation @ '' (zero or more times)'')
      else if char = CHR ''+'' then (i, explanation @ '' (one or more times)'')
      else if char = CHR ''?'' then (i, explanation @ '' (optional)'')
      else if char = backslash then
        (i + 1, explanation @ escape_phrase (char_at p (i + 1)))
      else if char = CHR ''['' then
        (case index_of CHR '']'' p i of
           Some closingBracket \<Rightarrow>
             (closingBracket,
              explanation @ ''character from set: ''
                @ interpretCharacterClass (substring p (i + 1) closingBracket))
         | None \<Rightarrow> (i, explanation @ ''literal [''))
      else if char = CHR ''{'' then
        (case index_of CHR ''}'' p i of
           Some closingBrace \<Rightarrow>
             (closingBrace, explanation @ brace_phrase (substring p (i + 1) closingBrace))
         | None \<Rightarrow> (i, explanation @ ''literal {''))
      else if char = CHR ''('' then
        (case findMatchingParen p i of
           Some closingParen \<Rightarrow> (i, explanation @ ''group: ('')
         | None \<Rightarrow> (i, explanation @ ''literal (''))
      else if char = CHR '')'' then (i, explanation @ '')'')
      else if char = CHR ''|'' then (i, explanation @ '' OR '')
      else (i, explanation @ ''literal '' @ [char]))"

text \<open>The condition of the \<^verbatim>\<open>if\<close> under "Add connecting words", read after \<^verbatim>\<open>i++\<close>.\<close>

definition connector_due :: "string \<Rightarrow> nat \<Rightarrow> string \<Rightarrow> bool" where
  "connector_due p i explanation =
     (i < length p \<and> \<not> suffix '' '' explanation \<and> \<not> suffix ''('' explanation \<and>
      p ! i \<noteq> CHR '')'' \<and> p ! i \<noteq> CHR ''*'' \<and> p ! i \<noteq> CHR ''+'' \<and> p ! i \<noteq> CHR ''?'' \<and>
      p ! i \<noteq> CHR ''{'' \<and> p ! i \<noteq> CHR ''$'')"

text \<open>One iteration of the \<^verbatim>\<open>while\<close> loop: the switch, \<^verbatim>\<open>i++\<close>, the connector.\<close>

definition loop_body :: "string \<Rightarrow> nat \<times> string \<Rightarrow> nat \<times> string" where
  "loop_body p s =
     (case s of (i, explanation) \<Rightarrow>
        (case switch_char p i explanation of (j, e1) \<Rightarrow>
           (let i' = j + 1
            in (i', if connector_due p i' e1 then e1 @ '', then '' else e1))))"

text \<open>\<^verbatim>\<open>while (i < pattern.length) { ... }\<close>, returning the explanation built.\<close>

function narrate_loop :: "string \<Rightarrow> nat \<times> string \<Rightarrow> string" where
  "narrate_loop p (i, explanation) =
     (if i < length p then narrate_loop p (loop_body p (i, explanation)) else explanation)"
  by pat_completeness auto
termination
proof (relation "measure (\<lambda>(p, s). length p - fst s)")
  show "wf (measure (\<lambda>(p, s). length p - fst s))" by simp
next
  fix p :: string and i :: nat and explanation :: string
  assume "i < length p"
  have "i \<le> fst (switch_char p i explanation)"
    unfolding switch_char_def Let_def index_of_def
    by (auto split: option.splits simp: find_Some_iff)
  then have "i < fst (loop_body p (i, explanation))"
    by (cases "switch_char p i explanation") (simp add: loop_body_def Let_def)
  with \<open>i < length p\<close> show "((p, loop_body p (i, explanation)), (p, i, explanation))
      \<in> measure (\<lambda>(p, s). length p - fst s)"
    by simp
qed

section \<open>The finalizer and the whole function\<close>

definition connector :: string where
  "connector = '', then ''"

definition start_then :: string where
  "start_then = ''Start of string/line, then ''"

definition then_end :: string where
  "then_end = '', then end of string/line''"

text \<open>
  The three \<^verbatim>\<open>replace\<close> calls (none global, each anchored at one end), \<^verbatim>\<open>trim\<close>, and the
  fallback of \<^verbatim>\<open>explanation || "Complex regex pattern"\<close>.
\<close>

definition drop_trailing_connector :: "string \<Rightarrow> string" where
  "drop_trailing_connector e =
     (if suffix connector e then take (length e - length connector) e else e)"

definition soften_start :: "string \<Rightarrow> string" where
  "soften_start e =
     (if prefix start_then e then ''Start of string/line, '' @ drop (length start_then) e else e)"

definition soften_end :: "string \<Rightarrow> string" where
  "soften_end e =
     (if suffix then_end e
      then take (length e - length then_end) e @ '', end of string/line'' else e)"

definition finalize :: "string \<Rightarrow> string" where
  "finalize explanation =
     (let cleaned = trim (soften_end (soften_start (drop_trailing_connector explanation)))
      in if cleaned = [] then ''Complex regex pattern'' else cleaned)"

text \<open>Everything after the normalizer: the table first, the general narration otherwise.\<close>

definition explain :: "string \<Rightarrow> string" where
  "explain p =
     (case special_case p of
        Some explanation \<Rightarrow> explanation
      | None \<Rightarrow> finalize (narrate_loop p (0, [])))"

definition regexToEnglish :: "js_value \<Rightarrow> js_error + string" where
  "regexToEnglish regexPattern =
     (if \<not> truthy regexPattern then Inl (Error ''Regex pattern is required'')
      else (case regexPattern of
              JRegExp src flags \<Rightarrow> Inr (explain src)
            | JString s \<Rightarrow> Inr (explain (strip_slashes True s))
            | _ \<Rightarrow> Inl (Error ''Regex pattern must be a string or RegExp object'')))"

section \<open>Iterating the loop\<close>

text \<open>
  The loop seen from outside: one guarded iteration (the body when the loop condition
  holds, nothing otherwise), and the state (cursor, explanation) after \<open>n\<close> of them from the
  initial state \<^verbatim>\<open>i = 0\<close>, \<^verbatim>\<open>explanation = ""\<close>.
\<close>

definition guarded_body :: "string \<Rightarrow> nat \<times> string \<Rightarrow> nat \<times> string" where
  "guarded_body p s = (if fst s < length p then loop_body p s else s)"

definition state_after :: "string \<Rightarrow> nat \<Rightarrow> nat \<times> string" where
  "state_after p n = (guarded_body p ^^ n) (0, [])"


section \<open>Conditions the claims speak of\<close>

text \<open>
  The delimiter scanner in the specification's words (its section 4.5), for any pair of
  delimiters: from the index after the opening one, with a depth counter seeded at 1, an
  unescaped opening delimiter increments the depth and an unescaped closing one decrements
  it; the character after an unescaped backslash is skipped; the index of the closing
  delimiter that brings the depth to 0 is returned, and nothing when the source runs out.
  It is compared with \<open>findMatchingParen\<close>, the scanner of the code.
\<close>

function spec_scan_loop :: "char \<Rightarrow> char \<Rightarrow> string \<Rightarrow> nat \<Rightarrow> int \<Rightarrow> nat option" where
  "spec_scan_loop opener closer p i depth =
     (if i < length p then
        (if p ! i = backslash then spec_scan_loop opener closer p (i + 2) depth
         else if p ! i = opener then spec_scan_loop opener closer p (i + 1) (depth + 1)
         else if p ! i = closer then
           (if depth - 1 = 0 then Some i else spec_scan_loop opener closer p (i + 1) (depth - 1))
         else spec_scan_loop opener closer p (i + 1) depth)
      else None)"
  by pat_completeness auto
termination
  by (relation "measure (\<lambda>(opener, closer, p, i, depth). length p - i)") auto

definition spec_delimiter_scan :: "char \<Rightarrow> char \<Rightarrow> string \<Rightarrow> nat \<Rightarrow> nat option" where
  "spec_delimiter_scan opener closer p start = spec_scan_loop opener closer p (start + 1) 1"

text \<open>
  An opening delimiter at index \<open>i\<close> without a closing partner: a parenthesis for which the
  specification's scanner finds none, or a bracket or brace after which no closing bracket
  or brace occurs at all, escaped or not.
\<close>

definition no_closing_partner :: "string \<Rightarrow> nat \<Rightarrow> bool" where
  "no_closing_partner p i =
     (i < length p \<and>
      ((p ! i = CHR ''('' \<and> spec_delimiter_scan CHR ''('' CHR '')'' p i = None) \<or>
       (p ! i = CHR ''['' \<and> CHR '']'' \<notin> set (drop i p)) \<or>
       (p ! i = CHR ''{'' \<and> CHR ''}'' \<notin> set (drop i p))))"

text \<open>The fragment narrated for a character \<open>c\<close> taken as a literal.\<close>

definition literal_fragment :: "char \<Rightarrow> string" where
  "literal_fragment c = ''literal '' @ [c]"

text \<open>
  The connector rule in the specification's words: a connector is due when there is a next
  character and it is none of \<^verbatim>\<open>)\<close>, \<^verbatim>\<open>*\<close>, \<^verbatim>\<open>+\<close>, \<^verbatim>\<open>?\<close>, \<^verbatim>\<open>{\<close>, \<^verbatim>\<open>$\<close>. It is compared with
  \<open>connector_due\<close>, the condition of the code.
\<close>

definition claimed_connector_due :: "string \<Rightarrow> nat \<Rightarrow> bool" where
  "claimed_connector_due p i = (i < length p \<and> p ! i \<notin> set '')*+?{$'')"

text \<open>
  Some suffix of the string is a slash followed by flag letters only, up to the end: what
  the second alternative \<^verbatim>\<open>\/[gimuy]*$\<close> of the normalizer's expression matches.
\<close>

fun ends_with_slash_flags :: "string \<Rightarrow> bool" where
  "ends_with_slash_flags [] = False"
| "ends_with_slash_flags (c # cs) =
     ((c = CHR ''/'' \<and> list_all is_flag cs) \<or> ends_with_slash_flags cs)"

text \<open>
  The wrapper shape in the specification's words: an opening slash, a body, a closing
  slash and trailing flag letters (\<^verbatim>\<open>/.../flags\<close>).
\<close>

definition full_wrapper :: "string \<Rightarrow> bool" where
  "full_wrapper s =
     (case s of [] \<Rightarrow> False | c # cs \<Rightarrow> c = CHR ''/'' \<and> ends_with_slash_flags cs)"

text \<open>
  A source ends with an unescaped backslash when the run of backslashes at its end has odd
  length: they pair up from the left, each backslash escaping the next, and the last one
  is left with nothing to escape.
\<close>

definition trailing_backslashes :: "string \<Rightarrow> nat" where
  "trailing_backslashes p = length (takeWhile (\<lambda>c. c = backslash) (rev p))"

definition ends_with_unescaped_backslash :: "string \<Rightarrow> bool" where
  "ends_with_unescaped_backslash p = odd (trailing_backslashes p)"

text \<open>The source \<^verbatim>\<open>ab\\<close>, for a concrete run.\<close>

definition dangling :: string where
  "dangling = ''ab'' @ [backslash]"

text \<open>The source \<^verbatim>\<open>https?:\\<close>: a table entry and a trailing backslash at once.\<close>

definition url_dangling :: string where
  "url_dangling = ''https?:'' @ [backslash]"

section \<open>Facts about the model\<close>

lemma index_of_ge: "index_of c p i = Some k \<Longrightarrow> i \<le> k \<and> k < length p \<and> p ! k = c"
  unfolding index_of_def by (auto simp: find_Some_iff)

lemma switch_char_cursor: "i \<le> fst (switch_char p i e)"
  unfolding switch_char_def Let_def
  by (auto split: option.splits dest: index_of_ge)

lemma loop_body_cursor: "i < fst (loop_body p (i, e))"
  using switch_char_cursor [of i p e]
  by (cases "switch_char p i e") (simp add: loop_body_def Let_def)

lemma special_case_nonempty: "special_case p = Some e \<Longrightarrow> e \<noteq> []"
  unfolding special_case_def explanations_def
  by (auto split: if_splits)

lemma finalize_nonempty: "finalize e \<noteq> []"
  unfolding finalize_def Let_def by simp

lemma explain_nonempty: "explain p \<noteq> []"
  unfolding explain_def
  by (auto split: option.splits simp: finalize_nonempty dest: special_case_nonempty)

lemma guarded_body_strict: "fst s < length p \<Longrightarrow> fst s < fst (guarded_body p s)"
  using loop_body_cursor [of "fst s" p "snd s"] by (simp add: guarded_body_def)

lemma guarded_body_mono: "fst s \<le> fst (guarded_body p s)"
  using guarded_body_strict [of s p] by (cases "fst s < length p") (simp_all add: guarded_body_def)

lemma state_after_Suc: "state_after p (Suc n) = guarded_body p (state_after p n)"
  by (simp add: state_after_def)

lemma state_after_progress: "min n (length p) \<le> fst (state_after p n)"
proof (induction n)
  case 0
  show ?case by (simp add: state_after_def)
next
  case (Suc n)
  show ?case
  proof (cases "fst (state_after p n) < length p")
    case True
    then have "fst (state_after p n) < fst (state_after p (Suc n))"
      unfolding state_after_Suc by (rule guarded_body_strict)
    with Suc show ?thesis by simp
  next
    case False
    moreover have "fst (state_after p n) \<le> fst (state_after p (Suc n))"
      unfolding state_after_Suc by (rule guarded_body_mono)
    ultimately show ?thesis by simp
  qed
qed

lemma narrate_loop_guarded: "narrate_loop p (guarded_body p s) = narrate_loop p s"
  by (cases s) (simp add: guarded_body_def)

lemma narrate_loop_funpow: "narrate_loop p ((guarded_body p ^^ n) s) = narrate_loop p s"
  by (induction n) (simp_all add: narrate_loop_guarded)

lemma narrate_loop_exit: "length p \<le> fst s \<Longrightarrow> narrate_loop p s = snd s"
  by (cases s) simp

lemma narrate_loop_state_after: "narrate_loop p (0, []) = snd (state_after p (length p))"
proof -
  have "length p \<le> fst (state_after p (length p))"
    using state_after_progress [of "length p" p] by simp
  then have "narrate_loop p (state_after p (length p)) = snd (state_after p (length p))"
    by (rule narrate_loop_exit)
  then show ?thesis
    unfolding state_after_def by (simp add: narrate_loop_funpow)
qed

lemma escape_phrase_nonempty: "escape_phrase c \<noteq> []"
  by (cases c) simp_all

lemma brace_phrase_nonempty: "brace_phrase q \<noteq> []"
  unfolding brace_phrase_def by (simp split: list.splits)

lemma switch_char_appends: "\<exists>frag. frag \<noteq> [] \<and> snd (switch_char p i e) = e @ frag"
  unfolding switch_char_def Let_def
  by (simp add: escape_phrase_nonempty brace_phrase_nonempty split: option.splits)

lemma strip_slashes_length: "length (strip_slashes b s) \<le> length s"
  by (induction s arbitrary: b) (auto simp: le_SucI)

lemma strip_slashes_False_id: "strip_slashes False s = s \<longleftrightarrow> \<not> ends_with_slash_flags s"
  by (induction s) auto

lemma strip_slashes_True_nonslash:
  "c \<noteq> CHR ''/'' \<Longrightarrow> strip_slashes True (c # cs) = strip_slashes False (c # cs)"
  by simp

lemma slash_not_flag: "\<not> is_flag CHR ''/''"
  by (simp add: is_flag_def)

lemma strip_slashes_trailing:
  "list_all is_flag flags \<Longrightarrow> strip_slashes False (body @ CHR ''/'' # flags) = body"
  by (induction body) (auto simp: slash_not_flag)

lemma strip_slashes_leading: "strip_slashes True (CHR ''/'' # cs) = strip_slashes False cs"
  by simp

lemma trailing_decomp:
  "\<exists>q. p = q @ replicate (trailing_backslashes p) backslash \<and> (q = [] \<or> last q \<noteq> backslash)"
proof -
  let ?P = "\<lambda>c. c = backslash"
  let ?t = "takeWhile ?P (rev p)"
  let ?d = "dropWhile ?P (rev p)"
  have "rev (?t @ ?d) = rev ?d @ rev ?t" by (rule rev_append)
  moreover have "?t @ ?d = rev p" by (rule takeWhile_dropWhile_id)
  ultimately have "rev (rev p) = rev ?d @ rev ?t" by (simp only:)
  then have p: "p = rev ?d @ rev ?t" by (simp only: rev_rev_ident)
  have "\<forall>y\<in>set ?t. y = backslash" by (auto dest: set_takeWhileD)
  then have "replicate (length ?t) backslash = ?t" by (rule replicate_length_same)
  then have t: "rev ?t = replicate (trailing_backslashes p) backslash"
    by (metis rev_replicate trailing_backslashes_def)
  have "rev ?d = [] \<or> last (rev ?d) \<noteq> backslash"
  proof (cases "?d = []")
    case True
    then show ?thesis by simp
  next
    case False
    then have "\<not> ?P (hd ?d)" by (rule hd_dropWhile)
    with False show ?thesis by (simp add: last_rev)
  qed
  with p t show ?thesis by metis
qed

lemma switch_char_backslash:
  "p ! i = backslash \<Longrightarrow> switch_char p i e = (i + 1, e @ escape_phrase (char_at p (i + 1)))"
  by (simp add: switch_char_def)

lemma switch_char_other:
  "p ! i \<noteq> backslash \<Longrightarrow>
     fst (switch_char p i e) = i \<or>
     (\<exists>k. fst (switch_char p i e) = k \<and> k < length p \<and> p ! k \<noteq> backslash)"
  unfolding switch_char_def Let_def
  by (auto split: option.splits dest: index_of_ge)

lemma loop_body_fst: "fst (loop_body p (i, e)) = fst (switch_char p i e) + 1"
  by (cases "switch_char p i e") (simp add: loop_body_def Let_def)

lemma loop_body_last_backslash:
  assumes "Suc i = length p" and "p ! i = backslash"
  shows "loop_body p (i, e) = (length p + 1, e @ ''literal undefined'')"
proof -
  from assms have "switch_char p i e = (length p, e @ ''literal undefined'')"
    by (simp add: switch_char_backslash char_at_def)
  then show ?thesis
    by (simp add: loop_body_def Let_def connector_due_def)
qed

lemma on_track_step:
  assumes p: "p = q @ replicate k backslash" and q: "q = [] \<or> last q \<noteq> backslash"
    and k: "odd k" and i: "Suc i < length p" and t: "i \<le> length q \<or> even (i - length q)"
  shows "fst (loop_body p (i, e)) < length p \<and>
         (fst (loop_body p (i, e)) \<le> length q \<or> even (fst (loop_body p (i, e)) - length q))"
proof -
  have n: "length p = length q + k" using p by simp
  have run: "p ! j = backslash" if "length q \<le> j" "j < length p" for j
    using that p by (simp add: nth_append)
  have k1: "0 < k" using k by (cases k) auto
  show ?thesis
  proof (cases "length q \<le> i")
    case True
    with i have "p ! i = backslash" by (simp add: run)
    then have f: "fst (loop_body p (i, e)) = i + 2"
      by (simp add: loop_body_fst switch_char_backslash)
    from True t have ev: "even (i - length q)" by auto
    have "i + 2 < length p"
    proof (rule ccontr)
      assume "\<not> i + 2 < length p"
      with i have "i + 2 = length p" by simp
      with n True have "k = (i - length q) + 2" by simp
      with ev have "even k" by simp
      with k show False by simp
    qed
    moreover from True ev have "even (i + 2 - length q)" by (simp add: Suc_diff_le)
    ultimately show ?thesis using f by simp
  next
    case False
    then have lt: "i < length q" by simp
    then have qi: "p ! i = q ! i" using p by (simp add: nth_append)
    have before: "p ! (length q - 1) \<noteq> backslash"
    proof -
      from lt have "q \<noteq> []" by auto
      with q have "last q \<noteq> backslash" by simp
      moreover from \<open>q \<noteq> []\<close> have "last q = q ! (length q - 1)" by (rule last_conv_nth)
      moreover have "p ! (length q - 1) = q ! (length q - 1)"
      proof -
        from lt have "length q - 1 < length q" by simp
        then show ?thesis unfolding p by (simp only: nth_append if_True)
      qed
      ultimately show ?thesis by simp
    qed
    show ?thesis
    proof (cases "p ! i = backslash")
      case True
      then have f: "fst (loop_body p (i, e)) = i + 2"
        by (simp add: loop_body_fst switch_char_backslash)
      from True before have "i \<noteq> length q - 1" by auto
      with lt have "i + 2 \<le> length q" by simp
      with f n k1 show ?thesis by simp
    next
      case False
      from switch_char_other [OF False, of e]
      have "fst (switch_char p i e) < length q"
      proof
        assume "fst (switch_char p i e) = i"
        with lt show ?thesis by simp
      next
        assume "\<exists>j. fst (switch_char p i e) = j \<and> j < length p \<and> p ! j \<noteq> backslash"
        then obtain j where j: "fst (switch_char p i e) = j" "j < length p" "p ! j \<noteq> backslash"
          by blast
        have "j < length q"
        proof (rule ccontr)
          assume "\<not> j < length q"
          with j(2) have "p ! j = backslash" by (simp add: run)
          with j(3) show False by simp
        qed
        with j(1) show ?thesis by simp
      qed
      with n k1 show ?thesis by (simp add: loop_body_fst)
    qed
  qed
qed

lemma suffix_last: "suffix xs e \<Longrightarrow> xs \<noteq> [] \<Longrightarrow> last e = last xs"
  by (auto simp: suffix_def)

lemma drop_trailing_connector_keeps:
  assumes "suffix ''literal undefined'' e"
  shows "drop_trailing_connector e = e"
proof -
  from assms have "last e = CHR ''d''" by (auto dest: suffix_last)
  moreover have "last e = CHR '' ''" if "suffix connector e"
    using that by (auto dest: suffix_last simp: connector_def)
  ultimately have "\<not> suffix connector e" by auto
  then show ?thesis by (simp add: drop_trailing_connector_def)
qed

lemma soften_end_keeps:
  assumes "suffix ''literal undefined'' e"
  shows "soften_end e = e"
proof -
  from assms have "last e = CHR ''d''" by (auto dest: suffix_last)
  moreover have "last e = CHR ''e''" if "suffix then_end e"
    using that by (auto dest: suffix_last simp: then_end_def)
  ultimately have "\<not> suffix then_end e" by auto
  then show ?thesis by (simp add: soften_end_def)
qed

lemma no_overlap_start_then:
  "\<forall>x\<in>set (prefixes ''literal undefined''). suffix x start_then \<longrightarrow> x = []"
  by code_simp

lemma soften_start_keeps:
  assumes "suffix ''literal undefined'' e"
  shows "suffix ''literal undefined'' (soften_start e)"
proof (cases "prefix start_then e")
  case False
  with assms show ?thesis by (simp add: soften_start_def)
next
  case True
  then obtain r where e: "e = start_then @ r" by (auto simp: prefix_def)
  from assms e have "suffix ''literal undefined'' r \<or>
      (\<exists>x. ''literal undefined'' = x @ r \<and> suffix x start_then)"
    by (simp only: suffix_append)
  then have "suffix ''literal undefined'' r"
  proof
    assume "suffix ''literal undefined'' r"
    then show ?thesis .
  next
    assume "\<exists>x. ''literal undefined'' = x @ r \<and> suffix x start_then"
    then obtain x where x: "''literal undefined'' = x @ r" "suffix x start_then" by blast
    from x(1) have "prefix x ''literal undefined''" by (metis prefixI)
    then have "x \<in> set (prefixes ''literal undefined'')" by (simp only: in_set_prefixes)
    with x(2) no_overlap_start_then have "x = []" by blast
    with x(1) show ?thesis by simp
  qed
  then have "suffix ''literal undefined'' (''Start of string/line, '' @ r)"
    by (rule suffix_appendI)
  with True e show ?thesis by (simp add: soften_start_def)
qed

lemma trim_keeps:
  assumes "suffix ''literal undefined'' e"
  shows "suffix ''literal undefined'' (trim e)"
proof -
  from assms obtain q where e: "e = q @ ''literal undefined''" by (auto simp: suffix_def)
  have l: "\<not> is_js_space CHR ''l''" and d: "\<not> is_js_space CHR ''d''"
    by (simp_all add: is_js_space_def)
  have "\<exists>q'. dropWhile is_js_space e = q' @ ''literal undefined''"
  proof (cases "\<forall>x\<in>set q. is_js_space x")
    case True
    then have "dropWhile is_js_space e = dropWhile is_js_space ''literal undefined''"
      unfolding e by (simp add: dropWhile_append)
    with l show ?thesis by simp
  next
    case False
    then have "dropWhile is_js_space e = dropWhile is_js_space q @ ''literal undefined''"
      unfolding e by (auto simp: dropWhile_append)
    then show ?thesis by blast
  qed
  then obtain q' where q': "dropWhile is_js_space e = q' @ ''literal undefined''" by blast
  have "rev (q' @ ''literal undefined'') = CHR ''d'' # rev (q' @ ''literal undefine'')"
    by simp
  with d have "dropWhile is_js_space (rev (q' @ ''literal undefined'')) = rev (q' @ ''literal undefined'')"
    by (simp only: dropWhile.simps if_False)
  with q' have "trim e = q' @ ''literal undefined''"
    by (simp only: trim_def rev_rev_ident)
  then show ?thesis by (simp add: suffix_def)
qed

lemma finalize_keeps:
  assumes "suffix ''literal undefined'' e"
  shows "suffix ''literal undefined'' (finalize e)"
proof -
  from assms have "suffix ''literal undefined'' (trim (soften_start e))"
    by (intro trim_keeps soften_start_keeps)
  moreover from assms have "soften_end (soften_start (drop_trailing_connector e)) = soften_start e"
    by (simp add: drop_trailing_connector_keeps soften_end_keeps soften_start_keeps)
  ultimately have s: "suffix ''literal undefined''
      (trim (soften_end (soften_start (drop_trailing_connector e))))" by simp
  then have "trim (soften_end (soften_start (drop_trailing_connector e))) \<noteq> []"
    by (auto simp: suffix_def)
  with s show ?thesis by (simp add: finalize_def Let_def)
qed

lemma special_case_last_backslash:
  assumes "p \<noteq> []" and "last p = backslash"
  shows "special_case p = None \<longleftrightarrow> \<not> prefix ''https?:'' p"
proof -
  from assms have "p \<noteq> email_text" "p \<noteq> ssn_text" "p \<noteq> zip_short_text"
      "p \<noteq> zip_long_text" "p \<noteq> card_text"
    by (auto simp: email_text_def ssn_text_def zip_short_text_def zip_long_text_def card_text_def)
  then show ?thesis
    by (simp add: special_case_def explanations_def)
qed

lemma unescaped_backslash_last:
  assumes "ends_with_unescaped_backslash p"
  shows "p \<noteq> [] \<and> last p = backslash"
proof -
  obtain q where q: "p = q @ replicate (trailing_backslashes p) backslash"
    using trailing_decomp [of p] by blast
  from assms have "odd (trailing_backslashes p)"
    by (simp add: ends_with_unescaped_backslash_def)
  then obtain m where "trailing_backslashes p = Suc m"
    by (cases "trailing_backslashes p") auto
  with q have "p = (q @ replicate m backslash) @ [backslash]"
    by (metis append_assoc replicate_Suc replicate_append_same)
  then show ?thesis by (metis snoc_eq_iff_butlast)
qed

lemma findMatchingParen_loop_spec:
  "1 \<le> count \<Longrightarrow>
     findMatchingParen_loop p i count = spec_scan_loop CHR ''('' CHR '')'' p i count"
proof (induction p i count rule: findMatchingParen_loop.induct)
  case (1 p i count)
  show ?case
  proof (cases "i < length p")
    case False
    then show ?thesis by simp
  next
    case True
    show ?thesis
    proof (cases "p ! i = backslash")
      case bs: True
      with True 1 show ?thesis by simp
    next
      case nbs: False
      show ?thesis
      proof (cases "p ! i = CHR ''(''")
        case op: True
        with True nbs "1.prems" have "findMatchingParen_loop p i count = findMatchingParen_loop p (i + 1) (count + 1)"
          by (subst findMatchingParen_loop.simps) (simp add: Let_def)
        also from True nbs op "1.prems" have "\<dots> = spec_scan_loop CHR ''('' CHR '')'' p (i + 1) (count + 1)"
          using "1.IH"(2) [of "count + 1" "count + 1"] by simp
        also from True nbs op have "\<dots> = spec_scan_loop CHR ''('' CHR '')'' p i count"
          by (subst (2) spec_scan_loop.simps) simp
        finally show ?thesis .
      next
        case nop: False
        show ?thesis
        proof (cases "p ! i = CHR '')''")
          case cl: True
          show ?thesis
          proof (cases "count = 1")
            case one: True
            with True nbs nop cl show ?thesis
              by (subst findMatchingParen_loop.simps, subst spec_scan_loop.simps) (simp add: Let_def)
          next
            case more: False
            with "1.prems" have c: "1 \<le> count - 1" "count - 1 \<noteq> 0" by simp_all
            from True nbs nop cl c have "findMatchingParen_loop p i count = findMatchingParen_loop p (i + 1) (count - 1)"
              by (subst findMatchingParen_loop.simps) (simp add: Let_def)
            also from True nbs nop cl c have "\<dots> = spec_scan_loop CHR ''('' CHR '')'' p (i + 1) (count - 1)"
              using "1.IH"(2) [of count "count - 1"] by simp
            also from True nbs nop cl c have "\<dots> = spec_scan_loop CHR ''('' CHR '')'' p i count"
              by (subst (2) spec_scan_loop.simps) simp
            finally show ?thesis .
          qed
        next
          case ncl: False
          from "1.prems" have c0: "count \<noteq> 0" by simp
          from True nbs nop ncl c0 have "findMatchingParen_loop p i count = findMatchingParen_loop p (i + 1) count"
            by (subst findMatchingParen_loop.simps) (simp add: Let_def)
          also from True nbs nop ncl c0 "1.prems" have "\<dots> = spec_scan_loop CHR ''('' CHR '')'' p (i + 1) count"
            using "1.IH"(2) [of count count] by simp
          also from True nbs nop ncl have "\<dots> = spec_scan_loop CHR ''('' CHR '')'' p i count"
            by (subst (2) spec_scan_loop.simps) simp
          finally show ?thesis .
        qed
      qed
    qed
  qed
qed

lemma findMatchingParen_spec:
  "findMatchingParen p i = spec_delimiter_scan CHR ''('' CHR '')'' p i"
  unfolding findMatchingParen_def spec_delimiter_scan_def
  by (rule findMatchingParen_loop_spec) simp

lemma index_of_None:
  assumes "c \<notin> set (drop i p)"
  shows "index_of c p i = None"
proof -
  have "p ! k \<noteq> c" if "i \<le> k" "k < length p" for k
  proof
    assume "p ! k = c"
    with that have "drop i p ! (k - i) = c" "k - i < length (drop i p)" by simp_all
    then have "c \<in> set (drop i p)" by (metis nth_mem)
    with assms show False by simp
  qed
  then show ?thesis
    unfolding index_of_def by (auto simp: find_None_iff)
qed

lemma no_closing_partner_switch:
  assumes "no_closing_partner p i"
  shows "switch_char p i e = (i, e @ ''literal '' @ [p ! i])"
proof -
  from assms consider
      (paren) "p ! i = CHR ''(''" "findMatchingParen p i = None"
    | (bracket) "p ! i = CHR ''[''" "index_of CHR '']'' p i = None"
    | (brace) "p ! i = CHR ''{''" "index_of CHR ''}'' p i = None"
    unfolding no_closing_partner_def
    by (auto simp: findMatchingParen_spec dest: index_of_None)
  then show ?thesis
    by cases (simp_all add: switch_char_def)
qed

lemma loop_body_extends: "prefix e (snd (loop_body p (i, e)))"
proof -
  obtain frag where "snd (switch_char p i e) = e @ frag"
    using switch_char_appends [of p i e] by blast
  then show ?thesis
    by (cases "switch_char p i e") (auto simp: loop_body_def Let_def)
qed

lemma guarded_body_extends: "prefix (snd s) (snd (guarded_body p s))"
  using loop_body_extends [of "snd s" p "fst s"] by (simp add: guarded_body_def)

lemma state_after_extends: "prefix (snd (state_after p n)) (snd (state_after p (n + k)))"
proof (induction k)
  case 0
  show ?case by simp
next
  case (Suc k)
  have "prefix (snd (state_after p (n + k))) (snd (state_after p (Suc (n + k))))"
    unfolding state_after_Suc by (rule guarded_body_extends)
  with Suc show ?case by (auto intro: prefix_order.trans)
qed

lemma arrival_bound:
  assumes "state_after p n = (i, e)" and "i < length p"
  shows "Suc n \<le> length p"
proof -
  from assms(1) state_after_progress [of n p] have "min n (length p) \<le> i" by simp
  with assms(2) show ?thesis by simp
qed

lemma narration_extends_state:
  assumes "m \<le> length p"
  shows "prefix (snd (state_after p m)) (narrate_loop p (0, []))"
proof -
  from assms obtain k where "length p = m + k" by (auto simp: le_iff_add)
  with state_after_extends [of p m k]
  have "prefix (snd (state_after p m)) (snd (state_after p (length p)))" by simp
  then show ?thesis by (simp only: narrate_loop_state_after)
qed

lemma sublist_prepend: "sublist xs ys \<Longrightarrow> sublist xs (zs @ ys)"
proof -
  assume "sublist xs ys"
  then obtain a b where "ys = a @ xs @ b" by (auto simp: sublist_def)
  then have "zs @ ys = (zs @ a) @ xs @ b" by simp
  then show ?thesis unfolding sublist_def by blast
qed

lemma sublist_postpend: "sublist xs ys \<Longrightarrow> sublist xs (ys @ zs)"
proof -
  assume "sublist xs ys"
  then obtain a b where "ys = a @ xs @ b" by (auto simp: sublist_def)
  then have "ys @ zs = a @ xs @ (b @ zs)" by simp
  then show ?thesis unfolding sublist_def by blast
qed

lemma sublist_cut_suffix:
  assumes "sublist F (m @ C)" and "F \<noteq> []" and "last F \<notin> set C"
  shows "sublist F m"
proof -
  from assms(1) obtain a b where "(a @ F) @ b = m @ C" by (auto simp: sublist_def)
  then obtain us where "(a @ F = m @ us \<and> us @ b = C) \<or> ((a @ F) @ us = m \<and> b = us @ C)"
    unfolding append_eq_append_conv2 by blast
  then show ?thesis
  proof
    assume h: "a @ F = m @ us \<and> us @ b = C"
    have "us = []"
    proof (rule ccontr)
      assume "us \<noteq> []"
      with h assms(2) have "last F = last us" by (metis last_appendR)
      moreover from \<open>us \<noteq> []\<close> h have "last us \<in> set C" by auto
      ultimately show False using assms(3) by simp
    qed
    with h have "m = a @ F" by simp
    then show ?thesis by simp
  next
    assume "(a @ F) @ us = m \<and> b = us @ C"
    then have "m = a @ F @ us" by simp
    then show ?thesis by simp
  qed
qed

lemma sublist_cut_prefix:
  assumes "sublist F (S @ r)" and "F \<noteq> []" and "last F \<notin> set S"
    and "\<forall>x\<in>set (prefixes F). suffix x S \<longrightarrow> x = []"
  shows "sublist F r"
proof -
  from assms(1) obtain a b where "S @ r = a @ (F @ b)" by (auto simp: sublist_def)
  then obtain us where "(S = a @ us \<and> us @ r = F @ b) \<or> (S @ us = a \<and> r = us @ (F @ b))"
    unfolding append_eq_append_conv2 by blast
  then show ?thesis
  proof
    assume "S @ us = a \<and> r = us @ (F @ b)"
    then show ?thesis by simp
  next
    assume h: "S = a @ us \<and> us @ r = F @ b"
    then obtain vs where "(us = F @ vs \<and> vs @ r = b) \<or> (us @ vs = F \<and> r = vs @ b)"
      unfolding append_eq_append_conv2 by blast
    then show ?thesis
    proof
      assume "us = F @ vs \<and> vs @ r = b"
      with h have "S = a @ F @ vs" by simp
      with assms(2) have "last F \<in> set S" by simp
      with assms(3) show ?thesis by simp
    next
      assume g: "us @ vs = F \<and> r = vs @ b"
      then have "prefix us F" by (metis prefixI)
      then have "us \<in> set (prefixes F)" by (simp only: in_set_prefixes)
      moreover from h have "suffix us S" by (simp add: suffix_def)
      ultimately have "us = []" using assms(4) by blast
      with g show ?thesis by simp
    qed
  qed
qed

lemma sublist_dropWhile:
  assumes "sublist F xs" and "F \<noteq> []" and "\<not> P (hd F)"
  shows "sublist F (dropWhile P xs)"
proof -
  from assms(1) obtain a b where xs: "xs = a @ F @ b" by (auto simp: sublist_def)
  from assms(2,3) have "dropWhile P (F @ b) = F @ b" by (cases F) simp_all
  then have "dropWhile P xs = F @ b \<or> dropWhile P xs = dropWhile P a @ F @ b"
    unfolding xs by (simp add: dropWhile_append)
  then show ?thesis by auto
qed

lemma sublist_trim:
  assumes "sublist F xs" and "F \<noteq> []" and "\<not> is_js_space (hd F)" and "\<not> is_js_space (last F)"
  shows "sublist F (trim xs)"
proof -
  from assms(1,2,3) have "sublist F (dropWhile is_js_space xs)" by (rule sublist_dropWhile)
  then have "sublist (rev F) (rev (dropWhile is_js_space xs))" by (simp only: sublist_rev)
  moreover from assms(2) have "rev F \<noteq> []" by simp
  moreover from assms(2,4) have "\<not> is_js_space (hd (rev F))" by (simp add: hd_rev)
  ultimately have "sublist (rev F) (dropWhile is_js_space (rev (dropWhile is_js_space xs)))"
    by (rule sublist_dropWhile)
  then have "sublist (rev (rev F)) (rev (dropWhile is_js_space (rev (dropWhile is_js_space xs))))"
    by (simp only: sublist_rev)
  then show ?thesis by (simp only: trim_def rev_rev_ident)
qed

lemma opener_fragment_facts:
  assumes "c = CHR ''('' \<or> c = CHR ''['' \<or> c = CHR ''{''"
  shows "literal_fragment c \<noteq> []"
    and "last (literal_fragment c) \<notin> set connector"
    and "last (literal_fragment c) \<notin> set start_then"
    and "last (literal_fragment c) \<notin> set then_end"
    and "\<not> is_js_space (hd (literal_fragment c))"
    and "\<not> is_js_space (last (literal_fragment c))"
    and "\<forall>x\<in>set (prefixes (literal_fragment c)). suffix x start_then \<longrightarrow> x = []"
proof -
  show "literal_fragment c \<noteq> []" by (simp add: literal_fragment_def)
  from assms show "last (literal_fragment c) \<notin> set connector"
    by (auto simp: literal_fragment_def connector_def)
  from assms show "last (literal_fragment c) \<notin> set start_then"
    by (auto simp: literal_fragment_def start_then_def)
  from assms show "last (literal_fragment c) \<notin> set then_end"
    by (auto simp: literal_fragment_def then_end_def)
  show "\<not> is_js_space (hd (literal_fragment c))"
    by (simp add: literal_fragment_def is_js_space_def)
  from assms show "\<not> is_js_space (last (literal_fragment c))"
    by (auto simp: literal_fragment_def is_js_space_def)
  have "\<forall>x\<in>set (prefixes (literal_fragment CHR ''('')). suffix x start_then \<longrightarrow> x = []"
    by code_simp
  moreover have "\<forall>x\<in>set (prefixes (literal_fragment CHR ''['')). suffix x start_then \<longrightarrow> x = []"
    by code_simp
  moreover have "\<forall>x\<in>set (prefixes (literal_fragment CHR ''{'')). suffix x start_then \<longrightarrow> x = []"
    by code_simp
  ultimately show "\<forall>x\<in>set (prefixes (literal_fragment c)). suffix x start_then \<longrightarrow> x = []"
    using assms by blast
qed

lemma finalize_keeps_opener_fragment:
  assumes c: "c = CHR ''('' \<or> c = CHR ''['' \<or> c = CHR ''{''"
    and s: "sublist (literal_fragment c) e"
  shows "sublist (literal_fragment c) (finalize e)"
proof -
  let ?F = "literal_fragment c"
  note f = opener_fragment_facts [OF c]
  have 1: "sublist ?F (drop_trailing_connector e)"
  proof (cases "suffix connector e")
    case False
    with s show ?thesis by (simp add: drop_trailing_connector_def)
  next
    case True
    then obtain m where e: "e = m @ connector" by (auto simp: suffix_def)
    with s have "sublist ?F (m @ connector)" by simp
    then have "sublist ?F m" using f(1) f(2) by (rule sublist_cut_suffix)
    with True e show ?thesis by (simp add: drop_trailing_connector_def)
  qed
  have 2: "sublist ?F (soften_start (drop_trailing_connector e))"
  proof (cases "prefix start_then (drop_trailing_connector e)")
    case False
    with 1 show ?thesis by (simp add: soften_start_def)
  next
    case True
    then obtain r where e: "drop_trailing_connector e = start_then @ r" by (auto simp: prefix_def)
    with 1 have "sublist ?F (start_then @ r)" by simp
    then have "sublist ?F r" using f(1) f(3) f(7) by (rule sublist_cut_prefix)
    then have "sublist ?F (''Start of string/line, '' @ r)" by (rule sublist_prepend)
    with True e show ?thesis by (simp add: soften_start_def)
  qed
  have 3: "sublist ?F (soften_end (soften_start (drop_trailing_connector e)))"
  proof (cases "suffix then_end (soften_start (drop_trailing_connector e))")
    case False
    with 2 show ?thesis by (simp add: soften_end_def)
  next
    case True
    then obtain m where e: "soften_start (drop_trailing_connector e) = m @ then_end"
      by (auto simp: suffix_def)
    with 2 have "sublist ?F (m @ then_end)" by simp
    then have "sublist ?F m" using f(1) f(4) by (rule sublist_cut_suffix)
    then have "sublist ?F (m @ '', end of string/line'')" by (rule sublist_postpend)
    with True e show ?thesis by (simp add: soften_end_def)
  qed
  from 3 f(1) f(5) f(6)
  have 4: "sublist ?F (trim (soften_end (soften_start (drop_trailing_connector e))))"
    by (rule sublist_trim)
  with f(1) have "trim (soften_end (soften_start (drop_trailing_connector e))) \<noteq> []"
    by (auto simp: sublist_def)
  with 4 show ?thesis by (simp add: finalize_def Let_def)
qed


lemma special_case_url_last_backslash:
  assumes "p \<noteq> []" and "last p = backslash" and "prefix ''https?:'' p"
  shows "special_case p = Some ''URL starting with http or https''"
proof -
  from assms have "p \<noteq> email_text" "p \<noteq> ssn_text" "p \<noteq> zip_short_text"
      "p \<noteq> zip_long_text" "p \<noteq> card_text"
    by (auto simp: email_text_def ssn_text_def zip_short_text_def zip_long_text_def card_text_def)
  with assms(3) show ?thesis
    by (simp add: special_case_def explanations_def)
qed

lemma scan_reaches_last_backslash:
  assumes "ends_with_unescaped_backslash p"
  shows "\<exists>n e. state_after p n = (length p - 1, e)"
proof -
  obtain q where q: "p = q @ replicate (trailing_backslashes p) backslash"
      "q = [] \<or> last q \<noteq> backslash"
    using trailing_decomp [of p] by blast
  from assms have k: "odd (trailing_backslashes p)"
    by (simp add: ends_with_unescaped_backslash_def)
  from assms have ne: "p \<noteq> []" using unescaped_backslash_last by blast
  let ?T = "\<lambda>i. i < length p \<and> (i \<le> length q \<or> even (i - length q))"
  have inv: "?T (fst (state_after p n)) \<or> length p \<le> fst (state_after p n)" for n
  proof (induction n)
    case 0
    from ne show ?case by (simp add: state_after_def)
  next
    case (Suc n)
    obtain i e where st: "state_after p n = (i, e)" by (cases "state_after p n")
    show ?case
    proof (cases "Suc i < length p")
      case True
      with Suc st have "?T i" by simp
      then have "i \<le> length q \<or> even (i - length q)" by simp
      from on_track_step [OF q(1) q(2) k True this, of e] True st
      show ?thesis by (simp add: state_after_Suc guarded_body_def)
    next
      case False
      then have "length p \<le> fst (guarded_body p (i, e))"
        using guarded_body_strict [of "(i, e)" p] by (cases "i < length p") (simp_all add: guarded_body_def)
      with st show ?thesis by (simp add: state_after_Suc)
    qed
  qed
  let ?P = "\<lambda>n. length p \<le> fst (state_after p n)"
  have "?P (length p)" using state_after_progress [of "length p" p] by simp
  moreover from ne have "\<not> ?P 0" by (simp add: state_after_def)
  ultimately obtain m where m: "\<not> ?P m" "?P (Suc m)"
    using ex_least_nat_less [of ?P "length p"] by blast
  obtain i e where st: "state_after p m = (i, e)" by (cases "state_after p m")
  with m(1) inv [of m] have t: "i < length p" "i \<le> length q \<or> even (i - length q)" by simp_all
  have "Suc i = length p"
  proof (rule ccontr)
    assume "Suc i \<noteq> length p"
    with t(1) have "Suc i < length p" by simp
    from on_track_step [OF q(1) q(2) k this t(2), of e] t(1) st
    have "fst (state_after p (Suc m)) < length p" by (simp add: state_after_Suc guarded_body_def)
    with m(2) show False by simp
  qed
  with st have "state_after p m = (length p - 1, e)" by auto
  then show ?thesis by blast
qed

section \<open>The claims\<close>

text \<open>
  C1. The claim: a \<^verbatim>\<open>RegExp\<close> whose source is the anchored text \<^verbatim>\<open>^\d{3}-\d{2}-\d{4}$\<close> gets the
  curated SSN text from the table. On the code the table's recognizer accepts the text
  without the two anchors only, so the anchored source matches no entry and is narrated
  token by token; the theorem evaluates both sources.
\<close>

theorem C1_anchored_ssn_source_is_narrated:
  "special_case (''^'' @ ssn_text @ ''$'') = None \<and>
   regexToEnglish (JRegExp (''^'' @ ssn_text @ ''$'') []) =
     Inr ''Start of string/line, digit (exactly 3 times), then literal -, then digit (exactly 2 times), then literal -, then digit (exactly 4 times)end of string/line'' \<and>
   regexToEnglish (JRegExp ssn_text []) =
     Inr ''3 digits - 2 digits - 4 digits (SSN-like pattern)''"
  by code_simp

text \<open>
  C2. The claim: the \<^verbatim>\<open>]\<close> that closes a character class is found with escape-skip, so in
  \<^verbatim>\<open>[a\]b]\<close> the class runs to the last character. On the code the bracket branch calls
  \<^verbatim>\<open>indexOf\<close>, which stops at the escaped \<^verbatim>\<open>]\<close> at index 3: the class read is \<^verbatim>\<open>a\\<close>, and
  \<^verbatim>\<open>b\<close> and the final \<^verbatim>\<open>]\<close> are narrated as literals.
\<close>

theorem C2_escaped_bracket_closes_class:
  "index_of CHR '']'' (''[a'' @ [backslash] @ '']b]'') 0 = Some 3 \<and>
   regexToEnglish (JString (''[a'' @ [backslash] @ '']b]'')) =
     Inr (''character from set: a'' @ [backslash] @ '', then literal b, then literal ]'')"
  by code_simp

text \<open>
  C3. The claim: each canonical bracket content has its fixed phrase, and both orders of
  the two letter ranges give "letters". On the code six of the seven lookups hold; the
  content \<^verbatim>\<open>A-Za-z\<close> is missing from the chain of comparisons and falls to the hyphen
  branch, which renders it "A through z".
\<close>

theorem C3_canonical_classes:
  "interpretCharacterClass ''a-z'' = ''lowercase letters'' \<and>
   interpretCharacterClass ''A-Z'' = ''uppercase letters'' \<and>
   interpretCharacterClass ''0-9'' = ''digits'' \<and>
   interpretCharacterClass ''a-zA-Z'' = ''letters'' \<and>
   interpretCharacterClass ''a-zA-Z0-9'' = ''letters and digits'' \<and>
   interpretCharacterClass ''A-Za-z0-9'' = ''letters and digits'' \<and>
   interpretCharacterClass ''A-Za-z'' = ''A through z''"
  by code_simp

text \<open>
  C4, as stated, fails. The string \<^verbatim>\<open>/abc\<close> has an opening slash but no closing one, and
  \<^verbatim>\<open>abc/g\<close> a closing slash with a flag but no opening one: neither is a complete wrapper,
  and both are changed by the normalizer.
\<close>

theorem C4_partial_wrapper_is_stripped_counterexample:
  "\<not> full_wrapper ''/abc'' \<and> strip_slashes True ''/abc'' = ''abc'' \<and>
   \<not> full_wrapper ''abc/g'' \<and> strip_slashes True ''abc/g'' = ''abc''"
  by code_simp

text \<open>
  C4, amended. The normalizer removes a leading slash when there is one and,
  independently, a trailing slash followed by zero or more of the letters g, i, m, u, y
  when there is one after the first character. A string is passed through unchanged
  exactly when it neither starts with a slash nor ends with such a trailing part; a
  complete wrapper loses both and leaves its body.
\<close>

theorem C4_normalizer_strips_each_end:
  "(strip_slashes True s = s \<longleftrightarrow> (\<not> prefix ''/'' s \<and> \<not> ends_with_slash_flags s)) \<and>
   (list_all is_flag flags \<longrightarrow> strip_slashes True (''/'' @ body @ ''/'' @ flags) = body) \<and>
   (list_all is_flag flags \<and> \<not> prefix ''/'' body \<and> body \<noteq> [] \<longrightarrow>
      strip_slashes True (body @ ''/'' @ flags) = body) \<and>
   (\<not> ends_with_slash_flags body \<longrightarrow> strip_slashes True (''/'' @ body) = body)"
proof -
  have a: "strip_slashes True s = s \<longleftrightarrow> (\<not> prefix ''/'' s \<and> \<not> ends_with_slash_flags s)"
  proof (cases s)
    case Nil
    then show ?thesis by simp
  next
    case (Cons c cs)
    show ?thesis
    proof (cases "c = CHR ''/''")
      case True
      have "length (strip_slashes False cs) \<le> length cs" by (rule strip_slashes_length)
      then have "strip_slashes False cs \<noteq> c # cs" by auto
      with True Cons show ?thesis by simp
    next
      case False
      then have "strip_slashes True (c # cs) = strip_slashes False (c # cs)"
        by (rule strip_slashes_True_nonslash)
      with False Cons show ?thesis
        using strip_slashes_False_id [of "c # cs"] by simp
    qed
  qed
  have b: "list_all is_flag flags \<longrightarrow> strip_slashes True (''/'' @ body @ ''/'' @ flags) = body"
    by (simp add: strip_slashes_trailing)
  have c: "list_all is_flag flags \<and> \<not> prefix ''/'' body \<and> body \<noteq> [] \<longrightarrow>
      strip_slashes True (body @ ''/'' @ flags) = body"
  proof
    assume h: "list_all is_flag flags \<and> \<not> prefix ''/'' body \<and> body \<noteq> []"
    then obtain x xs where body: "body = x # xs" "x \<noteq> CHR ''/''"
      by (cases body) auto
    then have "strip_slashes True (body @ ''/'' @ flags) = strip_slashes False (body @ ''/'' @ flags)"
      by simp
    also from h have "\<dots> = body" by (simp add: strip_slashes_trailing)
    finally show "strip_slashes True (body @ ''/'' @ flags) = body" .
  qed
  have d: "\<not> ends_with_slash_flags body \<longrightarrow> strip_slashes True (''/'' @ body) = body"
    by (simp add: strip_slashes_False_id)
  from a b c d show ?thesis by blast
qed

theorem C4_normalizer_strips_each_end_witness:
  "strip_slashes True ''a.c'' = ''a.c'' \<and>
   strip_slashes True ''/a/b/gi'' = ''a/b'' \<and>
   strip_slashes True ''a+/g'' = ''a+'' \<and>
   strip_slashes True ''/xy'' = ''xy''"
proof -
  have h1: "\<not> prefix ''/'' ''a.c'' \<and> \<not> ends_with_slash_flags ''a.c''" by code_simp
  have h2: "list_all is_flag ''gi''" by code_simp
  have h3: "list_all is_flag ''g'' \<and> \<not> prefix ''/'' ''a+'' \<and> ''a+'' \<noteq> []" by code_simp
  have h4: "\<not> ends_with_slash_flags ''xy''" by code_simp
  from h1 h2 h3 h4
    C4_normalizer_strips_each_end [of "''a.c''" "''gi''" "''a/b''"]
    C4_normalizer_strips_each_end [of "[]" "''g''" "''a+''"]
    C4_normalizer_strips_each_end [of "[]" "[]" "''xy''"]
  show ?thesis by simp
qed

text \<open>
  C5, as stated, fails. The source \<^verbatim>\<open>https?:(abc\<close> holds an unmatched parenthesis, but the
  table answers first and the text returned has no literal fragment for it. In \<^verbatim>\<open>x{(}\<close>
  the unmatched parenthesis lies inside a brace span, which is consumed as a quantifier
  body, and is not narrated as a literal either. Neither raises an error.
\<close>

theorem C5_opener_not_narrated_counterexample:
  "''https?:(abc'' ! 7 = CHR ''('' \<and>
   spec_delimiter_scan CHR ''('' CHR '')'' ''https?:(abc'' 7 = None \<and>
   regexToEnglish (JString ''https?:(abc'') = Inr ''URL starting with http or https'' \<and>
   \<not> sublist ''literal ('' ''URL starting with http or https'' \<and>
   ''x{(}'' ! 2 = CHR ''('' \<and>
   spec_delimiter_scan CHR ''('' CHR '')'' ''x{(}'' 2 = None \<and>
   regexToEnglish (JString ''x{(}'') = Inr ''literal x (exactly ( times)'' \<and>
   \<not> sublist ''literal ('' ''literal x (exactly ( times)''"
  by code_simp

text \<open>
  C5, amended. No pattern source makes the translation return an error. When no table
  entry answers and the scan arrives at an opening delimiter without a closing partner
  (a parenthesis for which the escape-aware depth-counting scan finds none; a bracket or
  brace with no closing bracket or brace anywhere after it), the switch appends "literal"
  and the character itself, the cursor moves on by one, the same loop continues to the
  end, and the text returned contains that fragment. The source \<^verbatim>\<open>(abc\<close> gets the text
  shown. A bracket or brace whose only closing character is escaped is not covered here.
\<close>

theorem C5_literal_opener_when_scanned:
  "regexToEnglish (JRegExp p flags) = Inr (explain p) \<and>
   (p \<noteq> [] \<longrightarrow> regexToEnglish (JString p) = Inr (explain (strip_slashes True p))) \<and>
   (special_case p = None \<and> state_after p n = (i, e) \<and> no_closing_partner p i \<longrightarrow>
      switch_char p i e = (i, e @ ''literal '' @ [p ! i]) \<and>
      fst (state_after p (Suc n)) = i + 1 \<and>
      prefix (e @ ''literal '' @ [p ! i]) (snd (state_after p (Suc n))) \<and>
      prefix (e @ ''literal '' @ [p ! i]) (narrate_loop p (0, [])) \<and>
      explain p = finalize (narrate_loop p (0, [])) \<and>
      sublist (''literal '' @ [p ! i]) (explain p)) \<and>
   regexToEnglish (JString ''(abc'') = Inr ''literal (literal a, then literal b, then literal c''"
proof -
  have a: "regexToEnglish (JRegExp p flags) = Inr (explain p)"
    by (simp add: regexToEnglish_def)
  have b: "p \<noteq> [] \<longrightarrow> regexToEnglish (JString p) = Inr (explain (strip_slashes True p))"
    by (simp add: regexToEnglish_def)
  have c: "special_case p = None \<and> state_after p n = (i, e) \<and> no_closing_partner p i \<longrightarrow>
      switch_char p i e = (i, e @ ''literal '' @ [p ! i]) \<and>
      fst (state_after p (Suc n)) = i + 1 \<and>
      prefix (e @ ''literal '' @ [p ! i]) (snd (state_after p (Suc n))) \<and>
      prefix (e @ ''literal '' @ [p ! i]) (narrate_loop p (0, [])) \<and>
      explain p = finalize (narrate_loop p (0, [])) \<and>
      sublist (''literal '' @ [p ! i]) (explain p)"
  proof
    assume h: "special_case p = None \<and> state_after p n = (i, e) \<and> no_closing_partner p i"
    then have st: "state_after p n = (i, e)" and r: "i < length p"
      and op: "p ! i = CHR ''('' \<or> p ! i = CHR ''['' \<or> p ! i = CHR ''{''"
      by (auto simp: no_closing_partner_def)
    from h have sw: "switch_char p i e = (i, e @ ''literal '' @ [p ! i])"
      by (simp add: no_closing_partner_switch)
    from st r have nx: "state_after p (Suc n) = loop_body p (i, e)"
      by (simp add: state_after_Suc guarded_body_def)
    from sw have f1: "fst (loop_body p (i, e)) = i + 1"
      by (simp add: loop_body_def Let_def)
    from sw have f2: "prefix (e @ ''literal '' @ [p ! i]) (snd (loop_body p (i, e)))"
      by (simp add: loop_body_def Let_def)
    from st r have "Suc n \<le> length p" by (rule arrival_bound)
    then have "prefix (snd (state_after p (Suc n))) (narrate_loop p (0, []))"
      by (rule narration_extends_state)
    with f2 nx have f3: "prefix (e @ ''literal '' @ [p ! i]) (narrate_loop p (0, []))"
      by (auto intro: prefix_order.trans)
    from h have f4: "explain p = finalize (narrate_loop p (0, []))"
      by (simp add: explain_def)
    from f3 obtain zs where z: "narrate_loop p (0, []) = (e @ ''literal '' @ [p ! i]) @ zs"
      unfolding prefix_def by blast
    have "(e @ ''literal '' @ [p ! i]) @ zs = e @ literal_fragment (p ! i) @ zs"
      by (simp add: literal_fragment_def)
    with z have "narrate_loop p (0, []) = e @ literal_fragment (p ! i) @ zs" by (simp only:)
    then have "sublist (literal_fragment (p ! i)) (narrate_loop p (0, []))"
      unfolding sublist_def by blast
    with op have "sublist (literal_fragment (p ! i)) (finalize (narrate_loop p (0, [])))"
      by (rule finalize_keeps_opener_fragment)
    with f4 have f5: "sublist (''literal '' @ [p ! i]) (explain p)"
      by (simp add: literal_fragment_def)
    from sw nx f1 f2 f3 f4 f5 show "switch_char p i e = (i, e @ ''literal '' @ [p ! i]) \<and>
      fst (state_after p (Suc n)) = i + 1 \<and>
      prefix (e @ ''literal '' @ [p ! i]) (snd (state_after p (Suc n))) \<and>
      prefix (e @ ''literal '' @ [p ! i]) (narrate_loop p (0, [])) \<and>
      explain p = finalize (narrate_loop p (0, [])) \<and>
      sublist (''literal '' @ [p ! i]) (explain p)"
      by simp
  qed
  have d: "regexToEnglish (JString ''(abc'') = Inr ''literal (literal a, then literal b, then literal c''"
    by code_simp
  from a b c d show ?thesis by blast
qed

theorem C5_literal_opener_when_scanned_witness:
  "special_case ''(abc'' = None \<and> state_after ''(abc'' 0 = (0, []) \<and> no_closing_partner ''(abc'' 0 \<and>
   switch_char ''(abc'' 0 [] = (0, ''literal ('') \<and> sublist ''literal ('' (explain ''(abc'') \<and>
   special_case ''x[y'' = None \<and> state_after ''x[y'' 1 = (1, ''literal x, then '') \<and>
   no_closing_partner ''x[y'' 1 \<and>
   switch_char ''x[y'' 1 ''literal x, then '' = (1, ''literal x, then literal ['') \<and>
   sublist ''literal ['' (explain ''x[y'') \<and>
   special_case ''a{'' = None \<and> state_after ''a{'' 1 = (1, ''literal a'') \<and>
   no_closing_partner ''a{'' 1 \<and>
   switch_char ''a{'' 1 ''literal a'' = (1, ''literal aliteral {'') \<and>
   sublist ''literal {'' (explain ''a{'')"
proof -
  have h1: "special_case ''(abc'' = None \<and> state_after ''(abc'' 0 = (0, []) \<and>
      no_closing_partner ''(abc'' 0 \<and> ''(abc'' ! 0 = CHR ''(''" by code_simp
  have h2: "special_case ''x[y'' = None \<and> state_after ''x[y'' 1 = (1, ''literal x, then '') \<and>
      no_closing_partner ''x[y'' 1 \<and> ''x[y'' ! 1 = CHR ''[''" by code_simp
  have h3: "special_case ''a{'' = None \<and> state_after ''a{'' 1 = (1, ''literal a'') \<and>
      no_closing_partner ''a{'' 1 \<and> ''a{'' ! 1 = CHR ''{''" by code_simp
  from h1 C5_literal_opener_when_scanned [of "''(abc''" "[]" 0 0 "[]"]
  have "switch_char ''(abc'' 0 [] = (0, [] @ ''literal '' @ [''(abc'' ! 0]) \<and>
      sublist (''literal '' @ [''(abc'' ! 0]) (explain ''(abc'')" by blast
  with h1 have w1: "switch_char ''(abc'' 0 [] = (0, ''literal ('') \<and>
      sublist ''literal ('' (explain ''(abc'')" by simp
  from h2 C5_literal_opener_when_scanned [of "''x[y''" "[]" 1 1 "''literal x, then ''"]
  have "switch_char ''x[y'' 1 ''literal x, then '' =
        (1, ''literal x, then '' @ ''literal '' @ [''x[y'' ! 1]) \<and>
      sublist (''literal '' @ [''x[y'' ! 1]) (explain ''x[y'')" by blast
  with h2 have w2: "switch_char ''x[y'' 1 ''literal x, then '' = (1, ''literal x, then literal ['') \<and>
      sublist ''literal ['' (explain ''x[y'')" by simp
  from h3 C5_literal_opener_when_scanned [of "''a{''" "[]" 1 1 "''literal a''"]
  have "switch_char ''a{'' 1 ''literal a'' = (1, ''literal a'' @ ''literal '' @ [''a{'' ! 1]) \<and>
      sublist (''literal '' @ [''a{'' ! 1]) (explain ''a{'')" by blast
  with h3 have w3: "switch_char ''a{'' 1 ''literal a'' = (1, ''literal aliteral {'') \<and>
      sublist ''literal {'' (explain ''a{'')" by simp
  from h1 h2 h3 w1 w2 w3 show ?thesis by blast
qed

text \<open>
  C6. An error is returned exactly when the argument is falsy or is neither a string nor a
  \<^verbatim>\<open>RegExp\<close>; every other argument gets an explanation. The two errors are decided from the
  argument alone, by the checks that precede the table and the scan.
\<close>

theorem C6_invalid_input_iff:
  "((\<exists>e. regexToEnglish v = Inl e) \<longleftrightarrow> (\<not> truthy v \<or> \<not> (is_string v \<or> is_regexp v))) \<and>
   ((\<exists>s. regexToEnglish v = Inr s) \<longleftrightarrow> (truthy v \<and> (is_string v \<or> is_regexp v))) \<and>
   (\<not> truthy v \<longrightarrow> regexToEnglish v = Inl (Error ''Regex pattern is required'')) \<and>
   (truthy v \<and> \<not> (is_string v \<or> is_regexp v) \<longrightarrow>
      regexToEnglish v = Inl (Error ''Regex pattern must be a string or RegExp object''))"
  by (cases v) (simp_all add: regexToEnglish_def)

theorem C6_invalid_input_iff_witness:
  "(\<exists>e. regexToEnglish JNull = Inl e) \<and> (\<exists>e. regexToEnglish (JString []) = Inl e) \<and>
   (\<exists>e. regexToEnglish (JNumber 5) = Inl e) \<and> (\<exists>s. regexToEnglish (JString ''a'') = Inr s) \<and>
   (\<exists>s. regexToEnglish (JRegExp ''a'' ''g'') = Inr s)"
  using C6_invalid_input_iff [of JNull] C6_invalid_input_iff [of "JString []"]
    C6_invalid_input_iff [of "JNumber 5"] C6_invalid_input_iff [of "JString ''a''"]
    C6_invalid_input_iff [of "JRegExp ''a'' ''g''"]
  by simp

text \<open>
  C7. Whatever is returned for an accepted argument is a non-empty string. When no table
  entry matches and the cleaned narration is empty, the result is the fallback
  "Complex regex pattern"; the string \<^verbatim>\<open>//\<close> normalizes to the empty source and gets it.
\<close>

theorem C7_output_never_empty:
  "(\<forall>s. regexToEnglish v = Inr s \<longrightarrow> s \<noteq> []) \<and>
   (special_case p = None \<and>
    trim (soften_end (soften_start (drop_trailing_connector (narrate_loop p (0, []))))) = []
      \<longrightarrow> explain p = ''Complex regex pattern'') \<and>
   strip_slashes True ''//'' = [] \<and>
   regexToEnglish (JString ''//'') = Inr ''Complex regex pattern''"
proof -
  have a: "\<forall>s. regexToEnglish v = Inr s \<longrightarrow> s \<noteq> []"
    by (cases v) (auto simp: regexToEnglish_def explain_nonempty split: if_splits)
  have b: "special_case p = None \<and>
      trim (soften_end (soften_start (drop_trailing_connector (narrate_loop p (0, []))))) = []
      \<longrightarrow> explain p = ''Complex regex pattern''"
    by (simp add: explain_def finalize_def)
  have c: "strip_slashes True ''//'' = []" by code_simp
  have d: "regexToEnglish (JString ''//'') = Inr ''Complex regex pattern''" by code_simp
  from a b c d show ?thesis by blast
qed

theorem C7_output_never_empty_witness:
  "regexToEnglish (JString ''a*'') = Inr ''literal a (zero or more times)'' \<and>
   ''literal a (zero or more times)'' \<noteq> [] \<and>
   special_case [] = None \<and>
   trim (soften_end (soften_start (drop_trailing_connector (narrate_loop [] (0, []))))) = [] \<and>
   explain [] = ''Complex regex pattern''"
proof -
  have e: "regexToEnglish (JString ''a*'') = Inr ''literal a (zero or more times)''"
    by code_simp
  have f: "special_case [] = None" by code_simp
  have g: "trim (soften_end (soften_start (drop_trailing_connector (narrate_loop [] (0, []))))) = []"
    by code_simp
  from e f g C7_output_never_empty [of "JString ''a*''" "[]"] show ?thesis by blast
qed

text \<open>
  C8, as stated, fails. In \<^verbatim>\<open>a|b\<close> the fragment " OR " is followed by \<^verbatim>\<open>b\<close>, which is none of
  the suppressing characters, so the rule in the specification's words asks for a
  connector; the code appends none, since the explanation ends in a space.
\<close>

theorem C8_connector_after_alternation_counterexample:
  "claimed_connector_due ''a|b'' 2 \<and>
   switch_char ''a|b'' 1 ''literal a, then '' = (1, ''literal a, then  OR '') \<and>
   loop_body ''a|b'' (1, ''literal a, then '') = (2, ''literal a, then  OR '') \<and>
   regexToEnglish (JString ''a|b'') = Inr ''literal a, then  OR literal b''"
  by code_simp

text \<open>
  C8, amended. After a fragment is emitted (always a non-empty text appended to the
  explanation), the connector ", then " is appended exactly when there is a next character,
  it is none of \<^verbatim>\<open>)\<close>, \<^verbatim>\<open>*\<close>, \<^verbatim>\<open>+\<close>, \<^verbatim>\<open>?\<close>, \<^verbatim>\<open>{\<close>, \<^verbatim>\<open>$\<close>, and the explanation so far ends neither in a
  space nor in an opening parenthesis. Translating \<^verbatim>\<open>a*\<close> gives the literal with its
  modifier attached, no connector between them.
\<close>

theorem C8_connector_rule:
  "(i < length p \<and> switch_char p i e = (j, e1) \<longrightarrow>
      e1 \<noteq> [] \<and> prefix e e1 \<and>
      loop_body p (i, e) =
        (j + 1, if claimed_connector_due p (j + 1) \<and> last e1 \<noteq> CHR '' '' \<and> last e1 \<noteq> CHR ''(''
                then e1 @ '', then '' else e1)) \<and>
   regexToEnglish (JString ''a*'') = Inr ''literal a (zero or more times)''"
proof -
  have a: "i < length p \<and> switch_char p i e = (j, e1) \<longrightarrow>
      e1 \<noteq> [] \<and> prefix e e1 \<and>
      loop_body p (i, e) =
        (j + 1, if claimed_connector_due p (j + 1) \<and> last e1 \<noteq> CHR '' '' \<and> last e1 \<noteq> CHR ''(''
                then e1 @ '', then '' else e1)"
  proof
    assume h: "i < length p \<and> switch_char p i e = (j, e1)"
    obtain frag where f: "frag \<noteq> []" "snd (switch_char p i e) = e @ frag"
      using switch_char_appends [of p i e] by blast
    with h have e1: "e1 = e @ frag" by simp
    with f have ne: "e1 \<noteq> []" by simp
    have sp: "suffix [c] e1 \<longleftrightarrow> last e1 = c" for c
      using ne by (cases e1 rule: rev_cases) (auto simp: suffix_def)
    have "connector_due p (j + 1) e1 \<longleftrightarrow>
        (claimed_connector_due p (j + 1) \<and> last e1 \<noteq> CHR '' '' \<and> last e1 \<noteq> CHR ''('')"
      unfolding connector_due_def claimed_connector_due_def
      using sp [of "CHR '' ''"] sp [of "CHR ''(''"] by auto
    with h e1 ne show "e1 \<noteq> [] \<and> prefix e e1 \<and>
      loop_body p (i, e) =
        (j + 1, if claimed_connector_due p (j + 1) \<and> last e1 \<noteq> CHR '' '' \<and> last e1 \<noteq> CHR ''(''
                then e1 @ '', then '' else e1)"
      by (simp add: loop_body_def Let_def)
  qed
  have b: "regexToEnglish (JString ''a*'') = Inr ''literal a (zero or more times)''"
    by code_simp
  from a b show ?thesis by blast
qed

theorem C8_connector_rule_witness:
  "switch_char ''ab*'' 0 [] = (0, ''literal a'') \<and>
   loop_body ''ab*'' (0, []) = (1, ''literal a, then '') \<and>
   switch_char ''ab*'' 1 ''literal a, then '' = (1, ''literal a, then literal b'') \<and>
   loop_body ''ab*'' (1, ''literal a, then '') = (2, ''literal a, then literal b'')"
proof -
  have h1: "(0::nat) < length ''ab*'' \<and> switch_char ''ab*'' 0 [] = (0, ''literal a'')" by code_simp
  have h2: "(1::nat) < length ''ab*'' \<and> switch_char ''ab*'' 1 ''literal a, then '' = (1, ''literal a, then literal b'')"
    by code_simp
  have h3: "claimed_connector_due ''ab*'' 1 \<and> \<not> claimed_connector_due ''ab*'' 2" by code_simp
  from h1 h2 h3
    C8_connector_rule [of 0 "''ab*''" "[]" 0 "''literal a''"]
    C8_connector_rule [of 1 "''ab*''" "''literal a, then ''" 1 "''literal a, then literal b''"]
  show ?thesis by (simp add: numeral_2_eq_2)
qed




text \<open>
  C10, as stated, fails. The source \<^verbatim>\<open>https?:\\<close> ends with an unescaped backslash, but the
  table answers first: the text returned is the curated one, the backslash branch never
  runs and no "literal undefined" is produced.
\<close>

theorem C10_table_answers_first_counterexample:
  "ends_with_unescaped_backslash url_dangling \<and>
   regexToEnglish (JString url_dangling) = Inr ''URL starting with http or https'' \<and>
   \<not> suffix ''literal undefined'' ''URL starting with http or https'' \<and>
   \<not> sublist ''literal undefined'' ''URL starting with http or https''"
  by code_simp

text \<open>
  C10, amended. When the source ends with an unescaped backslash no error is returned. If
  the source starts with \<^verbatim>\<open>https?:\<close> the table's text is returned. Otherwise no table entry
  applies and the scan runs: it arrives at the last backslash at the head of an iteration,
  that iteration reads \<^verbatim>\<open>pattern[i]\<close> one position past the end, which is \<^verbatim>\<open>undefined\<close>,
  appends "literal undefined" and ends the loop, so this is the last fragment of the
  narration; the finalizer leaves it in place and the text returned ends with it.
\<close>

theorem C10_trailing_backslash_narrated:
  "ends_with_unescaped_backslash p \<longrightarrow>
     last p = backslash \<and> char_at p (length p) = None \<and>
     regexToEnglish (JRegExp p flags) = Inr (explain p) \<and>
     (\<forall>s. s \<noteq> [] \<and> strip_slashes True s = p \<longrightarrow> regexToEnglish (JString s) = Inr (explain p)) \<and>
     (prefix ''https?:'' p \<longrightarrow> explain p = ''URL starting with http or https'') \<and>
     (\<not> prefix ''https?:'' p \<longrightarrow>
        explain p = finalize (narrate_loop p (0, [])) \<and>
        (\<exists>n e. state_after p n = (length p - 1, e) \<and>
               state_after p (Suc n) = (length p + 1, e @ ''literal undefined'') \<and>
               narrate_loop p (0, []) = e @ ''literal undefined'') \<and>
        suffix ''literal undefined'' (explain p))"
proof
  assume h: "ends_with_unescaped_backslash p"
  then have l: "p \<noteq> [] \<and> last p = backslash" by (rule unescaped_backslash_last)
  then have i: "Suc (length p - 1) = length p" "p ! (length p - 1) = backslash"
    using last_conv_nth [of p] by simp_all
  have a: "char_at p (length p) = None" by (simp add: char_at_def)
  have f: "regexToEnglish (JRegExp p flags) = Inr (explain p)"
    by (simp add: regexToEnglish_def)
  have g: "\<forall>s. s \<noteq> [] \<and> strip_slashes True s = p \<longrightarrow> regexToEnglish (JString s) = Inr (explain p)"
    by (simp add: regexToEnglish_def)
  have u: "prefix ''https?:'' p \<longrightarrow> explain p = ''URL starting with http or https''"
    using l by (simp add: explain_def special_case_url_last_backslash)
  have d: "\<not> prefix ''https?:'' p \<longrightarrow>
        explain p = finalize (narrate_loop p (0, [])) \<and>
        (\<exists>n e. state_after p n = (length p - 1, e) \<and>
               state_after p (Suc n) = (length p + 1, e @ ''literal undefined'') \<and>
               narrate_loop p (0, []) = e @ ''literal undefined'') \<and>
        suffix ''literal undefined'' (explain p)"
  proof
    assume "\<not> prefix ''https?:'' p"
    with l have "special_case p = None" by (simp add: special_case_last_backslash)
    then have x: "explain p = finalize (narrate_loop p (0, []))" by (simp add: explain_def)
    from h obtain n e where st: "state_after p n = (length p - 1, e)"
      using scan_reaches_last_backslash by blast
    from i have lb: "loop_body p (length p - 1, e) = (length p + 1, e @ ''literal undefined'')"
      by (rule loop_body_last_backslash)
    from l have "length p - 1 < length p" by simp
    with st lb have nx: "state_after p (Suc n) = (length p + 1, e @ ''literal undefined'')"
      by (simp add: state_after_Suc guarded_body_def)
    have "narrate_loop p (0, []) = narrate_loop p (state_after p (Suc n))"
      unfolding state_after_def by (simp only: narrate_loop_funpow)
    also have "\<dots> = e @ ''literal undefined''"
      unfolding nx by (rule trans [OF narrate_loop_exit]) simp_all
    finally have nl: "narrate_loop p (0, []) = e @ ''literal undefined''" .
    then have "suffix ''literal undefined'' (narrate_loop p (0, []))" by (simp add: suffix_def)
    then have "suffix ''literal undefined'' (finalize (narrate_loop p (0, [])))"
      by (rule finalize_keeps)
    with x st nx nl show "explain p = finalize (narrate_loop p (0, [])) \<and>
        (\<exists>n e. state_after p n = (length p - 1, e) \<and>
               state_after p (Suc n) = (length p + 1, e @ ''literal undefined'') \<and>
               narrate_loop p (0, []) = e @ ''literal undefined'') \<and>
        suffix ''literal undefined'' (explain p)"
      by auto
  qed
  from l a f g u d show "last p = backslash \<and> char_at p (length p) = None \<and>
     regexToEnglish (JRegExp p flags) = Inr (explain p) \<and>
     (\<forall>s. s \<noteq> [] \<and> strip_slashes True s = p \<longrightarrow> regexToEnglish (JString s) = Inr (explain p)) \<and>
     (prefix ''https?:'' p \<longrightarrow> explain p = ''URL starting with http or https'') \<and>
     (\<not> prefix ''https?:'' p \<longrightarrow>
        explain p = finalize (narrate_loop p (0, [])) \<and>
        (\<exists>n e. state_after p n = (length p - 1, e) \<and>
               state_after p (Suc n) = (length p + 1, e @ ''literal undefined'') \<and>
               narrate_loop p (0, []) = e @ ''literal undefined'') \<and>
        suffix ''literal undefined'' (explain p))"
    by blast
qed

theorem C10_trailing_backslash_narrated_witness:
  "ends_with_unescaped_backslash dangling \<and> \<not> prefix ''https?:'' dangling \<and>
   suffix ''literal undefined'' (explain dangling) \<and>
   regexToEnglish (JString dangling) = Inr (explain dangling) \<and>
   explain dangling = ''literal a, then literal b, then literal undefined'' \<and>
   ends_with_unescaped_backslash url_dangling \<and> prefix ''https?:'' url_dangling \<and>
   explain url_dangling = ''URL starting with http or https''"
proof -
  have h1: "ends_with_unescaped_backslash dangling" by code_simp
  have h2: "\<not> prefix ''https?:'' dangling" by code_simp
  have h3: "dangling \<noteq> [] \<and> strip_slashes True dangling = dangling" by code_simp
  have h5: "explain dangling = ''literal a, then literal b, then literal undefined''" by code_simp
  have h6: "ends_with_unescaped_backslash url_dangling \<and> prefix ''https?:'' url_dangling"
    by code_simp
  from h1 h2 h3 h5 h6
    C10_trailing_backslash_narrated [of dangling "[]"]
    C10_trailing_backslash_narrated [of url_dangling "[]"]
  show ?thesis by blast
qed

end
